theory Spec2Isabelle
  imports Main
begin

section \<open>DNS utilities (src/common/dns_utils.cpp)\<close>

text \<open>
  A shallow embedding of the record decoders, the resolver front end
  \<open>DNSResolver::get_record\<close>, the OpenAlias TXT parser and the multi-source record
  loader of \<open>dns_utils.cpp\<close>.

  Conventions. A C \<open>char\<close> is a \<^typ>\<open>char\<close> (one byte); reading it as
  \<open>unsigned char\<close> is \<^term>\<open>of_char\<close>. A \<open>const char *\<close> is the memory seen from
  that pointer, a function from offsets to bytes, so that a read at any offset is
  defined in the model and a statement can say which offsets matter. A \<open>std::string\<close>
  is a \<^typ>\<open>string\<close>. \<open>std::string::npos\<close> and \<open>boost::none\<close> are \<^term>\<open>None\<close>.
  Logging is not modelled.
\<close>

subsection \<open>Library functions the code calls\<close>

text \<open>\<open>operator<<\<close> of a stream on an \<open>unsigned int\<close>: decimal, no leading zeros.\<close>

definition digit_char :: "nat \<Rightarrow> char" where
  "digit_char d = char_of (48 + d)"

function dec_string :: "nat \<Rightarrow> string" where
  "dec_string n =
     (if n < 10 then [digit_char n] else dec_string (n div 10) @ [digit_char (n mod 10)])"
  by pat_completeness auto
termination
  by (relation "measure (\<lambda>n. n)") auto

declare dec_string.simps [simp del]

text \<open>
  \<open>s.find(pat, pos)\<close>: the lowest position \<open>i \<ge> pos\<close> at which \<open>pat\<close> occurs in \<open>s\<close>
  (\<open>i + pat.size() \<le> s.size()\<close>), or \<open>npos\<close>.
\<close>

definition occurs_at :: "string \<Rightarrow> string \<Rightarrow> nat \<Rightarrow> bool" where
  "occurs_at pat s i \<longleftrightarrow> i + length pat \<le> length s \<and> take (length pat) (drop i s) = pat"

definition find_str :: "string \<Rightarrow> string \<Rightarrow> nat \<Rightarrow> nat option" where
  "find_str s pat pos = List.find (occurs_at pat s) [pos..<Suc (length s)]"

text \<open>
  \<open>s.substr(pos, n)\<close> for \<open>pos \<le> s.size()\<close>. It throws beyond that; the parser below
  calls it only at a position where a search from \<open>pos\<close> has succeeded (lemma
  \<open>find_str_Some\<close>), so the throw is not a branch of the model.
\<close>

definition substr :: "string \<Rightarrow> nat \<Rightarrow> nat \<Rightarrow> string" where
  "substr s pos n = take n (drop pos s)"

text \<open>\<open>s.c_str()\<close> read as a C string: the bytes before the first NUL.\<close>

definition c_str :: "string \<Rightarrow> string" where
  "c_str s = takeWhile (\<lambda>c. c \<noteq> CHR 0x00) s"

subsection \<open>Record decoders\<close>

type_synonym memory = "nat \<Rightarrow> char"

definition ipv4_to_string :: "memory \<Rightarrow> nat \<Rightarrow> string option" where
  "ipv4_to_string src len =
     (if len < 4 then None
      else
        let bytes = map (\<lambda>i. (of_char (src i) :: nat)) [0..<4]
        in Some (dec_string (bytes ! 0) @ ''.'' @ dec_string (bytes ! 1) @ ''.'' @
                 dec_string (bytes ! 2) @ ''.'' @ dec_string (bytes ! 3)))"

definition ipv6_to_string :: "memory \<Rightarrow> nat \<Rightarrow> string option" where
  "ipv6_to_string src len =
     (if len < 8 then None
      else
        let bytes = map (\<lambda>i. (of_char (src i) :: nat)) [0..<8]
        in Some (dec_string (bytes ! 0) @ '':'' @ dec_string (bytes ! 1) @ '':'' @
                 dec_string (bytes ! 2) @ '':'' @ dec_string (bytes ! 3) @ '':'' @
                 dec_string (bytes ! 4) @ '':'' @ dec_string (bytes ! 5) @ '':'' @
                 dec_string (bytes ! 6) @ '':'' @ dec_string (bytes ! 7)))"

text \<open>\<open>std::string(src + 1, len - 1)\<close> copies the bytes at offsets \<open>1 .. len - 1\<close>.\<close>

definition txt_to_string :: "memory \<Rightarrow> nat \<Rightarrow> string option" where
  "txt_to_string src len = (if len = 0 then None else Some (map src [1..<len]))"

text \<open>
  What the specification calls dotted-decimal and colon-separated decimal groups: the
  decimal numerals of the byte values, joined by the separator.
\<close>

fun join :: "string \<Rightarrow> string list \<Rightarrow> string" where
  "join sep [] = []"
| "join sep [x] = x"
| "join sep (x # y # ys) = x @ sep @ join sep (y # ys)"

definition decimal_groups :: "string \<Rightarrow> memory \<Rightarrow> nat \<Rightarrow> string" where
  "decimal_groups sep src k = join sep (map (\<lambda>i. dec_string (of_char (src i))) [0..<k])"

text \<open>The number a string of decimal digits stands for.\<close>

definition decimal_value :: "string \<Rightarrow> nat" where
  "decimal_value s = foldl (\<lambda>a c. 10 * a + (of_char c - 48)) 0 s"

subsection \<open>The resolver front end\<close>

text \<open>
  The validating resolver is external. \<open>ub_resolve\<close> is a parameter: given a name and a
  record type it fails (\<^term>\<open>None\<close>, a non-zero return) or fills a \<open>ub_result\<close>. The
  \<open>data\<close> array (ended by a NULL pointer) and the \<open>len\<close> array are one list of
  pointer and length pairs.
\<close>

record ub_result =
  havedata :: bool
  secure :: bool
  bogus :: bool
  data :: "(memory \<times> nat) list"

type_synonym resolver = "string \<Rightarrow> int \<Rightarrow> ub_result option"

text \<open>
  Modelled from the spec: \<open>common/dns_utils.h\<close> is absent; the record types A, TXT and
  AAAA carry their DNS type numbers.
\<close>

definition DNS_TYPE_A :: int where "DNS_TYPE_A = 1"
definition DNS_TYPE_TXT :: int where "DNS_TYPE_TXT = 16"
definition DNS_TYPE_AAAA :: int where "DNS_TYPE_AAAA = 28"

text \<open>\<open>strchr(addr, '.')\<close> on a C string.\<close>

definition check_address_syntax :: "string \<Rightarrow> bool" where
  "check_address_syntax addr = (if CHR ''.'' \<notin> set addr then False else True)"

text \<open>
  \<open>get_record\<close> returns the decoded records and the two flags it writes through its
  reference parameters, and, beside them, the list of queries it sent to the resolver.
\<close>

type_synonym query_result = "string list \<times> bool \<times> bool"

definition get_record ::
  "resolver \<Rightarrow> string \<Rightarrow> int \<Rightarrow> (memory \<Rightarrow> nat \<Rightarrow> string option) \<Rightarrow>
     query_result \<times> (string \<times> int) list" where
  "get_record ub_resolve url record_type reader =
     (if \<not> check_address_syntax (c_str url) then (([], False, False), [])
      else
        (case ub_resolve (c_str url) record_type of
           None \<Rightarrow> (([], False, False), [(c_str url, record_type)])
         | Some result \<Rightarrow>
             ((if havedata result
               then List.map_filter (\<lambda>(p, l). reader p l) (data result)
               else [],
               secure result \<or> bogus result,
               secure result \<and> \<not> bogus result),
              [(c_str url, record_type)])))"

definition get_ipv4 :: "resolver \<Rightarrow> string \<Rightarrow> query_result \<times> (string \<times> int) list" where
  "get_ipv4 ub_resolve url = get_record ub_resolve url DNS_TYPE_A ipv4_to_string"

definition get_ipv6 :: "resolver \<Rightarrow> string \<Rightarrow> query_result \<times> (string \<times> int) list" where
  "get_ipv6 ub_resolve url = get_record ub_resolve url DNS_TYPE_AAAA ipv6_to_string"

definition get_txt_record :: "resolver \<Rightarrow> string \<Rightarrow> query_result \<times> (string \<times> int) list" where
  "get_txt_record ub_resolve url = get_record ub_resolve url DNS_TYPE_TXT txt_to_string"

definition get_dns_format_from_oa_address :: "string \<Rightarrow> string" where
  "get_dns_format_from_oa_address oa_addr =
     (case find_str oa_addr ''@'' 0 of
        None \<Rightarrow> oa_addr
      | Some first_at \<Rightarrow> take first_at oa_addr @ ''.'' @ drop (first_at + 1) oa_addr)"

subsection \<open>The OpenAlias TXT parser\<close>

text \<open>
  \<open>pos += 18\<close> stays within the string, since the key was found there, and
  \<open>pos2 - pos\<close> does not wrap, since the search for the semicolon starts at \<open>pos\<close>.
  The empty string stands for "no address".
\<close>

definition address_from_txt_record :: "string \<Rightarrow> string" where
  "address_from_txt_record s =
     (case find_str s ''oa1:xmr'' 0 of
        None \<Rightarrow> []
      | Some pos0 \<Rightarrow>
          (case find_str s ''recipient_address='' pos0 of
             None \<Rightarrow> []
           | Some pos1 \<Rightarrow>
               let pos = pos1 + 18 in
               (case find_str s '';'' pos of
                  None \<Rightarrow> []
                | Some pos2 \<Rightarrow>
                    if pos2 - pos = 95 then substr s pos 95
                    else if pos2 - pos = 106 then substr s pos 106
                    else [])))"

text \<open>
  \<open>addresses_from_url\<close> returns the candidate addresses and the flag it writes to
  \<open>dnssec_valid\<close>. The process-wide resolver instance is the parameter \<open>ub_resolve\<close>.
\<close>

definition addresses_from_url :: "resolver \<Rightarrow> string \<Rightarrow> string list \<times> bool" where
  "addresses_from_url ub_resolve url =
     (let oa_addr = get_dns_format_from_oa_address url;
          (records, dnssec_available, dnssec_isvalid) = fst (get_txt_record ub_resolve oa_addr);
          dnssec_valid = (if dnssec_available \<and> dnssec_isvalid then True else False)
      in (filter (\<lambda>addr. length addr \<noteq> 0) (map address_from_txt_record records),
          dnssec_valid))"

text \<open>
  \<open>get_account_address_as_str_from_url\<close> returns its result, the flag written to
  \<open>dnssec_valid\<close> and, beside them, the list of calls it made to \<open>dns_confirm\<close>, each
  with its three arguments.
\<close>

definition get_account_address_as_str_from_url ::
  "resolver \<Rightarrow> string \<Rightarrow> (string \<Rightarrow> string list \<Rightarrow> bool \<Rightarrow> string) \<Rightarrow>
     string \<times> bool \<times> (string \<times> string list \<times> bool) list" where
  "get_account_address_as_str_from_url ub_resolve url dns_confirm =
     (let (addresses, dnssec_valid) = addresses_from_url ub_resolve url
      in if addresses = [] then ([], dnssec_valid, [])
         else (dns_confirm url addresses dnssec_valid, dnssec_valid,
               [(url, addresses, dnssec_valid)]))"

subsection \<open>The multi-source record loader\<close>

definition dns_records_match :: "string list \<Rightarrow> string list \<Rightarrow> bool" where
  "dns_records_match a b =
     (if length a \<noteq> length b then False
      else list_all (\<lambda>record_in_a. list_ex (\<lambda>record_in_b. record_in_a = record_in_b) b) a)"

text \<open>
  The body of the \<open>do ... while\<close> loop of lines 444 to 464, and the loop. An index at
  or beyond the size of \<open>dns_urls\<close> is an out-of-range read: \<^term>\<open>None\<close>. The loop
  ends when \<open>cur_index\<close> comes back to \<open>first_index\<close>; from other starting points it
  need not end, so it is a partial function.
\<close>

definition clear_step ::
  "bool list \<Rightarrow> bool list \<Rightarrow> nat \<Rightarrow> string list list \<Rightarrow> string list list" where
  "clear_step avail valid cur_index records =
     (let records1 = (if \<not> avail ! cur_index then records[cur_index := []] else records)
      in if \<not> valid ! cur_index then records1[cur_index := []] else records1)"

partial_function (option) clear_loop ::
  "nat \<Rightarrow> nat \<Rightarrow> bool list \<Rightarrow> bool list \<Rightarrow> nat \<Rightarrow> string list list \<Rightarrow>
     string list list option" where
  "clear_loop n first_index avail valid cur_index records =
     (if n \<le> cur_index then None
      else
        let records' = clear_step avail valid cur_index records;
            cur_index' = (if cur_index + 1 = n then 0 else cur_index + 1)
        in if cur_index' \<noteq> first_index
           then clear_loop n first_index avail valid cur_index' records'
           else Some records')"

text \<open>
  \<open>good_records_index\<close> is an \<open>int\<close> that receives the \<open>size_t\<close> loop index and is
  later used as a vector index: both conversions are written out (32-bit \<open>int\<close>,
  64-bit \<open>size_t\<close>).
\<close>

definition size_t_to_int :: "nat \<Rightarrow> int" where
  "size_t_to_int i = (let m = int i mod 2 ^ 32 in if m < 2 ^ 31 then m else m - 2 ^ 32)"

definition int_to_size_t :: "int \<Rightarrow> nat" where
  "int_to_size_t g = nat (g mod 2 ^ 64)"

text \<open>
  The inner loop over \<open>j\<close> (lines 496 to 503) and the outer loop over \<open>i\<close>. The
  bound \<open>records.size() - 1\<close> does not wrap: the loops run only when there are two
  hostnames or more.
\<close>

function match_loop :: "string list list \<Rightarrow> nat \<Rightarrow> nat \<Rightarrow> int \<Rightarrow> int" where
  "match_loop records i j good_records_index =
     (if j < length records
      then if dns_records_match (records ! i) (records ! j) then size_t_to_int i
           else match_loop records i (j + 1) good_records_index
      else good_records_index)"
  by pat_completeness auto
termination
  by (relation "measure (\<lambda>(records, i, j, g). length records - j)") auto

function search_loop :: "string list list \<Rightarrow> nat \<Rightarrow> int \<Rightarrow> int" where
  "search_loop records i good_records_index =
     (if i < length records - 1
      then if length (records ! i) = 0 then search_loop records (i + 1) good_records_index
           else
             let good_records_index' = match_loop records i (i + 1) good_records_index
             in if good_records_index' \<ge> 0 then good_records_index'
                else search_loop records (i + 1) good_records_index'
      else good_records_index)"
  by pat_completeness auto
termination
  by (relation "measure (\<lambda>(records, i, g). length records - i)") auto

declare match_loop.simps [simp del] search_loop.simps [simp del]
declare clear_loop.simps [code]

text \<open>
  Lines 466 to 515, on the records left by the clearing loop: the count of non-empty
  record sets, the single-source case and the search for two matching sources.
  \<open>good_records\<close> is a reference parameter: the caller's value comes back unchanged
  when the function returns \<open>false\<close>.
\<close>

definition select_good_records ::
  "string list \<Rightarrow> nat \<Rightarrow> string list list \<Rightarrow> (bool \<times> string list) option" where
  "select_good_records good_records n records =
     (let num_valid_records = length (filter (\<lambda>record_set. length record_set \<noteq> 0) records)
      in if num_valid_records = 0 then Some (False, good_records)
         else if n = 1 then Some (True, records ! 0)
         else
           let good_records_index = search_loop records 0 (- 1)
           in if good_records_index < 0 then Some (False, good_records)
              else if int_to_size_t good_records_index < length records
                   then Some (True, records ! int_to_size_t good_records_index)
                   else None)"

text \<open>
  The results the parallel jobs leave in \<open>records\<close>, \<open>avail\<close> and \<open>valid\<close> once the
  waiter returns: job \<open>n\<close> writes slot \<open>n\<close> only. The resolver may answer two queries
  differently, so \<open>ub_resolve_at n\<close> is its behaviour in job \<open>n\<close>.
\<close>

definition fetch_all :: "(nat \<Rightarrow> resolver) \<Rightarrow> string list \<Rightarrow> query_result list" where
  "fetch_all ub_resolve_at dns_urls =
     map (\<lambda>n. fst (get_txt_record (ub_resolve_at n) (dns_urls ! n))) [0..<length dns_urls]"

text \<open>
  \<open>first_index\<close> is the value of \<open>crypto::rand_idx(dns_urls.size())\<close>, which is below
  its argument. The result is the returned flag with the final \<open>good_records\<close>;
  \<^term>\<open>None\<close> is an out-of-range read or a loop that does not end.
\<close>

definition load_txt_records_from_dns ::
  "(nat \<Rightarrow> resolver) \<Rightarrow> nat \<Rightarrow> string list \<Rightarrow> string list \<Rightarrow> (bool \<times> string list) option" where
  "load_txt_records_from_dns ub_resolve_at first_index good_records dns_urls =
     (if dns_urls = [] then Some (False, good_records)
      else
        let results = fetch_all ub_resolve_at dns_urls;
            records = map fst results;
            avail = map (\<lambda>r. fst (snd r)) results;
            valid = map (\<lambda>r. snd (snd r)) results
        in case clear_loop (length dns_urls) first_index avail valid first_index records of
             None \<Rightarrow> None
           | Some records' \<Rightarrow> select_good_records good_records (length dns_urls) records')"

subsection \<open>Specification-side notions and fixtures\<close>

text \<open>
  The micro-format of a TXT record as the specification words it, read the way a
  scanner reads: the marker is the first \<open>oa1:xmr\<close> of the text, the key is the first
  \<open>recipient_address=\<close> that starts at or after the start of the marker, the
  terminator is the first semicolon after the key, and the address is what stands
  between the key and the terminator, of length 95 or 106.
\<close>

definition first_occurrence :: "string \<Rightarrow> string \<Rightarrow> nat \<Rightarrow> nat \<Rightarrow> bool" where
  "first_occurrence pat s pos i \<longleftrightarrow>
     pos \<le> i \<and> occurs_at pat s i \<and> (\<forall>j\<in>{pos..<i}. \<not> occurs_at pat s j)"

definition openalias_address :: "string \<Rightarrow> string \<Rightarrow> bool" where
  "openalias_address s X \<longleftrightarrow>
     (\<exists>m k t. first_occurrence ''oa1:xmr'' s 0 m \<and>
              first_occurrence ''recipient_address='' s m k \<and>
              first_occurrence '';'' s (k + 18) t \<and>
              X = take (t - (k + 18)) (drop (k + 18) s) \<and>
              (length X = 95 \<or> length X = 106))"

text \<open>
  The same micro-format with no word about which occurrence counts: some marker, some
  key at or after it, some semicolon after the key, and the text between the two.
\<close>

definition worded_address :: "string \<Rightarrow> string \<Rightarrow> bool" where
  "worded_address s X \<longleftrightarrow>
     (\<exists>m\<in>{0..length s}. \<exists>k\<in>{m..length s}. \<exists>t\<in>{k + 18..length s}.
        occurs_at ''oa1:xmr'' s m \<and> occurs_at ''recipient_address='' s k \<and>
        occurs_at '';'' s t \<and> X = take (t - (k + 18)) (drop (k + 18) s) \<and>
        (length X = 95 \<or> length X = 106))"

text \<open>A memory that holds the bytes of \<open>p\<close>, followed by zeros.\<close>

definition bytes_at :: "string \<Rightarrow> memory" where
  "bytes_at p = (\<lambda>i. if i < length p then p ! i else CHR 0x00)"

text \<open>
  A resolver that knows one name: it answers a TXT query for \<open>alice.example.com\<close>
  with one DNSSEC-secure record holding \<open>txt\<close> behind its length byte, and fails on
  every other query.
\<close>

definition oa_reply :: "string \<Rightarrow> resolver" where
  "oa_reply txt = (\<lambda>name t.
     if name = ''alice.example.com'' \<and> t = DNS_TYPE_TXT
     then Some \<lparr>havedata = True, secure = True, bogus = False,
                data = [(bytes_at (CHR 0x7E # txt), Suc (length txt))]\<rparr>
     else None)"

text \<open>
  The record sets the sources hold after clearing, as the specification words it: a
  source whose \<open>dnssec_available\<close> or \<open>dnssec_valid\<close> flag is false holds no record.
\<close>

definition cleared_records ::
  "bool list \<Rightarrow> bool list \<Rightarrow> string list list \<Rightarrow> string list list" where
  "cleared_records avail valid records =
     map (\<lambda>n. if avail ! n \<and> valid ! n then records ! n else []) [0..<length records]"

definition sources_after_clearing :: "(nat \<Rightarrow> resolver) \<Rightarrow> string list \<Rightarrow> string list list" where
  "sources_after_clearing ub_resolve_at dns_urls =
     map (\<lambda>(records, avail, valid). if avail \<and> valid then records else [])
       (fetch_all ub_resolve_at dns_urls)"

text \<open>
  Equality of two record sets as the specification words it: same cardinality, and
  every record of one appears in the other.
\<close>

definition equal_as_sets :: "string list \<Rightarrow> string list \<Rightarrow> bool" where
  "equal_as_sets a b \<longleftrightarrow>
     length a = length b \<and> (\<forall>x\<in>set a. x \<in> set b) \<and> (\<forall>y\<in>set b. y \<in> set a)"

text \<open>
  The quorum search as the specification words it, for a notion \<open>eq\<close> of equality of
  record sets: a pair is two distinct sources \<open>i < j\<close>, both with records, whose
  record sets are equal; the pairs are met with \<open>i\<close> going upward and, for each \<open>i\<close>,
  \<open>j > i\<close> going upward; the first pair met decides, and its source \<open>i\<close> gives the
  accepted records; with no pair the lookup is rejected and \<open>good_records\<close> stays.
\<close>

definition pair_at ::
  "(string list \<Rightarrow> string list \<Rightarrow> bool) \<Rightarrow> string list list \<Rightarrow> nat \<times> nat \<Rightarrow> bool" where
  "pair_at eq rs = (\<lambda>(i, j). i < j \<and> j < length rs \<and> rs ! i \<noteq> [] \<and> rs ! j \<noteq> [] \<and>
                              eq (rs ! i) (rs ! j))"

definition pairs_from :: "nat \<Rightarrow> nat \<Rightarrow> (nat \<times> nat) list" where
  "pairs_from i n = concat (map (\<lambda>i'. map (Pair i') [Suc i'..<n]) [i..<n])"

definition first_pair ::
  "(string list \<Rightarrow> string list \<Rightarrow> bool) \<Rightarrow> string list list \<Rightarrow> (nat \<times> nat) option" where
  "first_pair eq rs = List.find (pair_at eq rs) (pairs_from 0 (length rs))"

definition quorum_outcome ::
  "(string list \<Rightarrow> string list \<Rightarrow> bool) \<Rightarrow> string list list \<Rightarrow> string list \<Rightarrow>
     bool \<times> string list" where
  "quorum_outcome eq rs good_records =
     (case first_pair eq rs of
        Some (i, j) \<Rightarrow> (True, rs ! i)
      | None \<Rightarrow> (False, good_records))"

text \<open>
  Resolvers for concrete runs: \<open>txt_reply\<close> answers every query with the given texts,
  each behind a length byte, and the given DNSSEC verdict; \<open>replies xs n\<close> is the
  resolver that job \<open>n\<close> meets.
\<close>

definition txt_reply :: "string list \<Rightarrow> bool \<Rightarrow> bool \<Rightarrow> resolver" where
  "txt_reply texts sec bog = (\<lambda>name t.
     Some \<lparr>havedata = True, secure = sec, bogus = bog,
           data = map (\<lambda>txt. (bytes_at (CHR 0x00 # txt), Suc (length txt))) texts\<rparr>)"

definition replies :: "(string list \<times> bool \<times> bool) list \<Rightarrow> nat \<Rightarrow> resolver" where
  "replies xs n =
     (case drop n xs of
        [] \<Rightarrow> (\<lambda>name t. None)
      | (texts, sec, bog) # _ \<Rightarrow> txt_reply texts sec bog)"


section \<open>Properties\<close>

subsection \<open>Record decoders\<close>

text \<open>The numeral that \<open>dec_string\<close> writes is made of digits and stands for its argument.\<close>

lemma digit_char_value: "d < 10 \<Longrightarrow> (of_char (digit_char d) :: nat) = 48 + d"
  by (simp add: digit_char_def)

lemma dec_string_value: "decimal_value (dec_string n) = n"
proof (induction n rule: dec_string.induct)
  case (1 n)
  show ?case
  proof (cases "n < 10")
    case True
    then show ?thesis
      by (subst dec_string.simps) (simp add: decimal_value_def digit_char_value)
  next
    case False
    with 1 have "decimal_value (dec_string (n div 10)) = n div 10" by simp
    with False show ?thesis
      by (subst dec_string.simps) (simp add: decimal_value_def digit_char_value)
  qed
qed

lemma dec_string_digits: "c \<in> set (dec_string n) \<Longrightarrow> c \<in> digit_char ` {0..<10}"
proof (induction n rule: dec_string.induct)
  case (1 n)
  show ?case
  proof (cases "n < 10")
    case True
    with 1(2) show ?thesis
      by (subst (asm) dec_string.simps) simp
  next
    case False
    with 1 show ?thesis
      by (subst (asm) (2) dec_string.simps) auto
  qed
qed

lemma upt_0_4: "[0..<4] = [0, 1, 2, 3::nat]"
  by code_simp

lemma upt_0_8: "[0..<8] = [0, 1, 2, 3, 4, 5, 6, 7::nat]"
  by code_simp

lemma ipv4_render: "4 \<le> len \<Longrightarrow> ipv4_to_string src len = Some (decimal_groups ''.'' src 4)"
  by (simp add: ipv4_to_string_def decimal_groups_def upt_0_4)

lemma ipv6_render: "8 \<le> len \<Longrightarrow> ipv6_to_string src len = Some (decimal_groups '':'' src 8)"
  by (simp add: ipv6_to_string_def decimal_groups_def upt_0_8)

lemma txt_render: "1 \<le> len \<Longrightarrow> txt_to_string src len = Some (tl (map src [0..<len]))"
  by (simp add: txt_to_string_def map_tl [symmetric] tl_upt)

lemma ipv4_reads:
  "\<forall>i<len. src' i = src i \<Longrightarrow> ipv4_to_string src' len = ipv4_to_string src len"
  by (simp add: ipv4_to_string_def upt_0_4)

lemma ipv6_reads:
  "\<forall>i<len. src' i = src i \<Longrightarrow> ipv6_to_string src' len = ipv6_to_string src len"
  by (simp add: ipv6_to_string_def upt_0_8)

lemma txt_reads:
  "\<forall>i<len. src' i = src i \<Longrightarrow> txt_to_string src' len = txt_to_string src len"
  by (simp add: txt_to_string_def)

text \<open>
  Claim C8. A payload of \<open>len\<close> bytes at \<open>src\<close> that is shorter than the decoder's
  minimum (4 bytes for \<open>ipv4_to_string\<close>, 8 for \<open>ipv6_to_string\<close>, 1 for
  \<open>txt_to_string\<close>) decodes to no value. A payload that meets the minimum decodes to
  the decimal numerals of its first 4 bytes joined by dots, to those of its first 8
  bytes joined by colons, and to the payload without its first byte. No decoder reads
  past the payload: two memories that agree on the offsets below \<open>len\<close> decode alike,
  whatever the length.
\<close>

theorem decoders_bounds_and_rendering:
  "(len < 4 \<longrightarrow> ipv4_to_string src len = None) \<and>
   (len < 8 \<longrightarrow> ipv6_to_string src len = None) \<and>
   (len < 1 \<longrightarrow> txt_to_string src len = None) \<and>
   (4 \<le> len \<longrightarrow> ipv4_to_string src len = Some (decimal_groups ''.'' src 4)) \<and>
   (8 \<le> len \<longrightarrow> ipv6_to_string src len = Some (decimal_groups '':'' src 8)) \<and>
   (1 \<le> len \<longrightarrow> txt_to_string src len = Some (tl (map src [0..<len]))) \<and>
   ((\<forall>i<len. src' i = src i) \<longrightarrow>
      ipv4_to_string src' len = ipv4_to_string src len \<and>
      ipv6_to_string src' len = ipv6_to_string src len \<and>
      txt_to_string src' len = txt_to_string src len)"
  using ipv4_render ipv6_render txt_render ipv4_reads ipv6_reads txt_reads
  by (simp add: ipv4_to_string_def ipv6_to_string_def txt_to_string_def)

theorem decoders_bounds_and_rendering_witness:
  "ipv4_to_string ((!) [CHR 0x7F, CHR 0x00, CHR 0x00]) 3 = None \<and>
   ipv6_to_string ((!) [CHR 0x7F, CHR 0x00, CHR 0x00]) 3 = None \<and>
   txt_to_string ((!) []) 0 = None \<and>
   ipv4_to_string
     (\<lambda>i. if i < 8
          then [CHR 0x7F, CHR 0x00, CHR 0x00, CHR 0x01, CHR 0x02, CHR 0x03, CHR 0x04, CHR 0xFF] ! i
          else CHR 0x00) 8 = Some ''127.0.0.1'' \<and>
   ipv6_to_string
     (\<lambda>i. if i < 8
          then [CHR 0x7F, CHR 0x00, CHR 0x00, CHR 0x01, CHR 0x02, CHR 0x03, CHR 0x04, CHR 0xFF] ! i
          else CHR 0x00) 8 = Some ''127:0:0:1:2:3:4:255'' \<and>
   txt_to_string
     (\<lambda>i. if i < 8
          then [CHR 0x7F, CHR 0x00, CHR 0x00, CHR 0x01, CHR 0x02, CHR 0x03, CHR 0x04, CHR 0xFF] ! i
          else CHR 0x00) 8 = Some [CHR 0x00, CHR 0x00, CHR 0x01, CHR 0x02, CHR 0x03, CHR 0x04, CHR 0xFF] \<and>
   ipv4_to_string
     (\<lambda>i. if i < 8
          then [CHR 0x7F, CHR 0x00, CHR 0x00, CHR 0x01, CHR 0x02, CHR 0x03, CHR 0x04, CHR 0xFF] ! i
          else CHR 0x2A) 8 = Some ''127.0.0.1''"
proof -
  let ?p = "[CHR 0x7F, CHR 0x00, CHR 0x00, CHR 0x01, CHR 0x02, CHR 0x03, CHR 0x04, CHR 0xFF]"
  let ?m = "\<lambda>i. if i < 8 then ?p ! i else CHR 0x00"
  let ?m' = "\<lambda>i. if i < 8 then ?p ! i else CHR 0x2A"
  have g4: "decimal_groups ''.'' ?m 4 = ''127.0.0.1''"
    by code_simp
  have g6: "decimal_groups '':'' ?m 8 = ''127:0:0:1:2:3:4:255''"
    by code_simp
  have t: "tl (map ?m [0..<8]) = [CHR 0x00, CHR 0x00, CHR 0x01, CHR 0x02, CHR 0x03, CHR 0x04, CHR 0xFF]"
    by code_simp
  have same: "\<forall>i<8. ?m' i = ?m i"
    by simp
  show ?thesis
    using decoders_bounds_and_rendering [of 3 "(!) [CHR 0x7F, CHR 0x00, CHR 0x00]"]
      decoders_bounds_and_rendering [of 0 "(!) []"]
      decoders_bounds_and_rendering [of 8 ?m ?m'] same g4 g6 t
    by simp
qed

subsection \<open>The resolver front end\<close>

lemma c_str_subset: "set (c_str s) \<subseteq> set s"
  by (auto simp: c_str_def dest: set_takeWhileD)

text \<open>
  Claim C7. For a name with no dot, \<open>get_record\<close>, and so \<open>get_ipv4\<close>, \<open>get_ipv6\<close>
  and \<open>get_txt_record\<close>, returns no record with \<open>dnssec_available\<close> and
  \<open>dnssec_valid\<close> both false, and the list of queries sent to the resolver is empty,
  whatever the resolver would have answered.
\<close>

theorem get_record_no_dot:
  assumes "CHR ''.'' \<notin> set url"
  shows "get_record ub_resolve url record_type reader = (([], False, False), []) \<and>
         get_ipv4 ub_resolve url = (([], False, False), []) \<and>
         get_ipv6 ub_resolve url = (([], False, False), []) \<and>
         get_txt_record ub_resolve url = (([], False, False), [])"
proof -
  from assms have "CHR ''.'' \<notin> set (c_str url)"
    using c_str_subset by blast
  then have "\<not> check_address_syntax (c_str url)"
    by (simp add: check_address_syntax_def)
  then show ?thesis
    by (simp add: get_record_def get_ipv4_def get_ipv6_def get_txt_record_def)
qed

theorem get_record_no_dot_witness:
  "get_record
     (\<lambda>name t. Some \<lparr>havedata = True, secure = True, bogus = False,
                      data = [(bytes_at ''Xabc'', 4)]\<rparr>)
     ''localhost'' DNS_TYPE_TXT txt_to_string = (([], False, False), []) \<and>
   get_txt_record
     (\<lambda>name t. Some \<lparr>havedata = True, secure = True, bogus = False,
                      data = [(bytes_at ''Xabc'', 4)]\<rparr>)
     ''localhost'' = (([], False, False), [])"
proof -
  have "CHR ''.'' \<notin> set ''localhost''"
    by simp
  then show ?thesis
    using get_record_no_dot [of "''localhost''"] by blast
qed

lemma identifier_transform:
  "get_dns_format_from_oa_address ''alice@example.com'' = ''alice.example.com''"
  "get_dns_format_from_oa_address ''bob.example.com'' = ''bob.example.com''"
  by code_simp+

lemma get_record_with_dot:
  "get_txt_record
     (\<lambda>name t. Some \<lparr>havedata = True, secure = True, bogus = False,
                      data = [(bytes_at ''Xabc'', 4)]\<rparr>)
     ''local.host'' = (([''abc''], True, True), [(''local.host'', 16)])"
  by code_simp

subsection \<open>The OpenAlias TXT parser\<close>

lemma find_upt_Some_iff:
  "List.find P [a..<b] = Some i \<longleftrightarrow> a \<le> i \<and> i < b \<and> P i \<and> (\<forall>j\<in>{a..<i}. \<not> P j)"
proof
  assume "List.find P [a..<b] = Some i"
  then obtain n where n: "n < length [a..<b]" "P ([a..<b] ! n)" "i = [a..<b] ! n"
      "\<forall>j<n. \<not> P ([a..<b] ! j)"
    unfolding find_Some_iff by blast
  from n(1) have nb: "a + n < b" by simp
  with n(3) have i: "i = a + n" by simp
  have "\<not> P j" if "j \<in> {a..<i}" for j
  proof -
    from that i have "j - a < n" "a + (j - a) = j" by auto
    moreover from this nb have "[a..<b] ! (j - a) = j" by simp
    ultimately show ?thesis using n(4) by metis
  qed
  with n(2) i nb show "a \<le> i \<and> i < b \<and> P i \<and> (\<forall>j\<in>{a..<i}. \<not> P j)"
    by simp
next
  assume r: "a \<le> i \<and> i < b \<and> P i \<and> (\<forall>j\<in>{a..<i}. \<not> P j)"
  then have "i - a < length [a..<b]" "[a..<b] ! (i - a) = i"
    by auto
  moreover have "\<forall>j<i - a. \<not> P ([a..<b] ! j)"
  proof (intro allI impI)
    fix j assume "j < i - a"
    with r have "a + j < b" "a + j \<in> {a..<i}" by auto
    with r show "\<not> P ([a..<b] ! j)" by simp
  qed
  ultimately show "List.find P [a..<b] = Some i"
    unfolding find_Some_iff using r by (intro exI [of _ "i - a"]) simp
qed

lemma find_str_Some_iff: "find_str s pat pos = Some i \<longleftrightarrow> first_occurrence pat s pos i"
proof -
  have "occurs_at pat s i \<Longrightarrow> i < Suc (length s)"
    by (simp add: occurs_at_def)
  then show ?thesis
    unfolding find_str_def first_occurrence_def find_upt_Some_iff by blast
qed

lemma find_str_None_iff: "find_str s pat pos = None \<longleftrightarrow> (\<forall>i\<ge>pos. \<not> occurs_at pat s i)"
proof -
  have "occurs_at pat s i \<Longrightarrow> i < Suc (length s)" for i
    by (simp add: occurs_at_def)
  then show ?thesis
    unfolding find_str_def find_None_iff set_upt by (metis atLeastLessThan_iff)
qed

lemma find_str_Some: "find_str s pat pos = Some i \<Longrightarrow> pos \<le> i \<and> i + length pat \<le> length s"
  by (simp add: find_str_Some_iff first_occurrence_def occurs_at_def)

lemma address_complete:
  assumes "openalias_address s X"
  shows "address_from_txt_record s = X"
proof -
  from assms obtain m k t where
    m: "find_str s ''oa1:xmr'' 0 = Some m" and
    k: "find_str s ''recipient_address='' m = Some k" and
    t: "find_str s '';'' (k + 18) = Some t" and
    X: "X = take (t - (k + 18)) (drop (k + 18) s)" and
    len: "length X = 95 \<or> length X = 106"
    unfolding openalias_address_def find_str_Some_iff by blast
  from find_str_Some [OF t] have "k + 18 \<le> t" "t < length s" by simp_all
  then have "length X = t - (k + 18)" using X by simp
  with len m k t X show ?thesis
    by (auto simp: address_from_txt_record_def substr_def)
qed

lemma address_sound:
  assumes "address_from_txt_record s \<noteq> []"
  shows "openalias_address s (address_from_txt_record s)"
proof -
  from assms obtain m where m: "find_str s ''oa1:xmr'' 0 = Some m"
    by (auto simp: address_from_txt_record_def split: option.splits)
  from assms m obtain k where k: "find_str s ''recipient_address='' m = Some k"
    by (auto simp: address_from_txt_record_def split: option.splits)
  from assms m k obtain t where t: "find_str s '';'' (k + 18) = Some t"
    by (auto simp: address_from_txt_record_def Let_def split: option.splits)
  from find_str_Some [OF t] have b: "k + 18 \<le> t" "t < length s" by simp_all
  from assms m k t have d: "t - (k + 18) = 95 \<or> t - (k + 18) = 106"
    by (auto simp: address_from_txt_record_def Let_def split: if_splits)
  with m k t have r: "address_from_txt_record s = take (t - (k + 18)) (drop (k + 18) s)"
    by (auto simp: address_from_txt_record_def substr_def)
  have "length (address_from_txt_record s) = t - (k + 18)"
    unfolding r using b by simp
  with d m k t r show ?thesis
    unfolding openalias_address_def find_str_Some_iff [symmetric] by metis
qed

text \<open>
  Claim C3, as amended. \<open>address_from_txt_record s\<close> is a non-empty address \<open>X\<close>
  exactly when \<open>s\<close> holds the marker \<open>oa1:xmr\<close>, the first key \<open>recipient_address=\<close>
  at or after the first marker is followed by a semicolon, and \<open>X\<close>, the text between
  that key and the next semicolon after it, has length 95 or 106; in every other case
  the result is the empty string.
\<close>

theorem address_from_txt_record_iff:
  "(address_from_txt_record s = X \<and> X \<noteq> [] \<longleftrightarrow> openalias_address s X) \<and>
   ((\<nexists>Y. openalias_address s Y) \<longrightarrow> address_from_txt_record s = [])"
proof -
  have "openalias_address s X \<Longrightarrow> X \<noteq> []"
    by (auto simp: openalias_address_def)
  then show ?thesis
    using address_complete address_sound by blast
qed


theorem address_from_txt_record_iff_witness:
  "openalias_address
     (''oa1:xmr recipient_address='' @ replicate 95 CHR ''4'' @ ''; recipient_name=x;'')
     (replicate 95 CHR ''4'') \<and>
   address_from_txt_record ''v=spf1 -all'' = []"
proof -
  let ?s = "''oa1:xmr recipient_address='' @ replicate 95 CHR ''4'' @ ''; recipient_name=x;''"
  have a: "address_from_txt_record ?s = replicate 95 CHR ''4''"
    by code_simp
  have b: "replicate 95 CHR ''4'' \<noteq> []"
    by simp
  have c: "address_from_txt_record ''v=spf1 -all'' = []"
    by code_simp
  show ?thesis
    using address_from_txt_record_iff [of ?s "replicate 95 CHR ''4''"] a b c by blast
qed

text \<open>
  As the claim was worded, with any key and any semicolon, it fails. In a record with
  a short first key field and a second key followed by 95 characters, the worded
  conditions hold for those 95 characters and the parser returns nothing; so too in a
  record whose 95 characters after the key hold a semicolon.
\<close>

theorem address_any_occurrence_counterexample:
  "worded_address
     (''oa1:xmr recipient_address=x; recipient_address='' @ replicate 95 CHR ''4'' @ '';'')
     (replicate 95 CHR ''4'') \<and>
   address_from_txt_record
     (''oa1:xmr recipient_address=x; recipient_address='' @ replicate 95 CHR ''4'' @ '';'') = [] \<and>
   worded_address
     (''oa1:xmr recipient_address=ab;'' @ replicate 92 CHR ''4'' @ '';'')
     (''ab;'' @ replicate 92 CHR ''4'') \<and>
   address_from_txt_record
     (''oa1:xmr recipient_address=ab;'' @ replicate 92 CHR ''4'' @ '';'') = []"
proof -
  let ?s = "''oa1:xmr recipient_address=x; recipient_address='' @ replicate 95 CHR ''4'' @ '';''"
  let ?u = "''oa1:xmr recipient_address=ab;'' @ replicate 92 CHR ''4'' @ '';''"
  have ls: "length ?s = 143" and lu: "length ?u = 122"
    by simp_all
  have s: "occurs_at ''oa1:xmr'' ?s 0 \<and> occurs_at ''recipient_address='' ?s 29 \<and>
           occurs_at '';'' ?s 142 \<and>
           replicate 95 CHR ''4'' = take (142 - (29 + 18)) (drop (29 + 18) ?s) \<and>
           length (replicate 95 CHR ''4'') = 95"
    by code_simp
  have u: "occurs_at ''oa1:xmr'' ?u 0 \<and> occurs_at ''recipient_address='' ?u 8 \<and>
           occurs_at '';'' ?u 121 \<and>
           ''ab;'' @ replicate 92 CHR ''4'' = take (121 - (8 + 18)) (drop (8 + 18) ?u) \<and>
           length (''ab;'' @ replicate 92 CHR ''4'') = 95"
    by code_simp
  have ws: "worded_address ?s (replicate 95 CHR ''4'')"
    unfolding worded_address_def ls
    by (rule bexI [of _ 0], rule bexI [of _ 29], rule bexI [of _ 142]) (use s in simp_all)
  have wu: "worded_address ?u (''ab;'' @ replicate 92 CHR ''4'')"
    unfolding worded_address_def lu
    by (rule bexI [of _ 0], rule bexI [of _ 8], rule bexI [of _ 121]) (use u in simp_all)
  have es: "address_from_txt_record ?s = []"
    by code_simp
  have eu: "address_from_txt_record ?u = []"
    by code_simp
  from ws es wu eu show ?thesis by blast
qed


subsection \<open>The address lookup\<close>

text \<open>
  Claim C9. Let the candidates be the non-empty addresses parsed from the TXT records
  resolved for the identifier. With no candidate,
  \<open>get_account_address_as_str_from_url\<close> returns the empty string and makes no call to
  the confirmation callback. Otherwise it calls the callback once, with the identifier,
  the candidates and the DNSSEC flag, and returns what the callback returns.
\<close>

theorem get_account_address_callback:
  assumes "get_txt_record ub_resolve (get_dns_format_from_oa_address url) =
             ((records, avail, valid), queries)"
    and "candidates = filter (\<lambda>a. a \<noteq> []) (map address_from_txt_record records)"
  shows "(candidates = [] \<longrightarrow>
            get_account_address_as_str_from_url ub_resolve url dns_confirm =
              ([], avail \<and> valid, [])) \<and>
         (candidates \<noteq> [] \<longrightarrow>
            get_account_address_as_str_from_url ub_resolve url dns_confirm =
              (dns_confirm url candidates (avail \<and> valid), avail \<and> valid,
               [(url, candidates, avail \<and> valid)]))"
  using assms
  by (cases avail; cases valid)
    (simp_all add: get_account_address_as_str_from_url_def addresses_from_url_def)

theorem get_account_address_callback_witness:
  "get_account_address_as_str_from_url (oa_reply ''v=spf1 -all'') ''alice@example.com''
     (\<lambda>url addresses dnssec_valid. hd addresses) = ([], True, []) \<and>
   get_account_address_as_str_from_url
     (oa_reply (''oa1:xmr recipient_address='' @ replicate 95 CHR ''4'' @ '';''))
     ''alice@example.com'' (\<lambda>url addresses dnssec_valid. hd addresses) =
     (replicate 95 CHR ''4'', True, [(''alice@example.com'', [replicate 95 CHR ''4''], True)])"
proof -
  let ?t = "''oa1:xmr recipient_address='' @ replicate 95 CHR ''4'' @ '';''"
  have n: "get_dns_format_from_oa_address ''alice@example.com'' = ''alice.example.com''"
    by code_simp
  have r0: "get_txt_record (oa_reply ''v=spf1 -all'') ''alice.example.com'' =
              (([''v=spf1 -all''], True, True), [(''alice.example.com'', 16)])"
    by code_simp
  have c0: "[] = filter (\<lambda>a. a \<noteq> []) (map address_from_txt_record [''v=spf1 -all''])"
    by code_simp
  have r1: "get_txt_record (oa_reply ?t) ''alice.example.com'' =
              (([?t], True, True), [(''alice.example.com'', 16)])"
    by code_simp
  have c1: "[replicate 95 CHR ''4''] =
              filter (\<lambda>a. a \<noteq> []) (map address_from_txt_record [?t])"
    by code_simp
  show ?thesis
    using get_account_address_callback [of "oa_reply ''v=spf1 -all''" "''alice@example.com''",
        unfolded n, OF r0 c0, of "\<lambda>url addresses dnssec_valid. hd addresses"]
      get_account_address_callback [of "oa_reply ?t" "''alice@example.com''",
        unfolded n, OF r1 c1, of "\<lambda>url addresses dnssec_valid. hd addresses"]
    by simp
qed

subsection \<open>The multi-source record loader: the clearing loop\<close>

lemma length_clear_step [simp]: "length (clear_step avail valid c rs) = length rs"
  by (simp add: clear_step_def)

lemma nth_clear_step:
  "k < length rs \<Longrightarrow>
   clear_step avail valid c rs ! k = (if k = c \<and> \<not> (avail ! c \<and> valid ! c) then [] else rs ! k)"
  by (auto simp: clear_step_def nth_list_update)

lemma length_fold_clear_step [simp]: "length (fold (clear_step avail valid) cs rs) = length rs"
  by (induction cs arbitrary: rs) simp_all

lemma nth_fold_clear_step:
  "k < length rs \<Longrightarrow>
   fold (clear_step avail valid) cs rs ! k =
     (if k \<in> set cs \<and> \<not> (avail ! k \<and> valid ! k) then [] else rs ! k)"
proof (induction cs arbitrary: rs)
  case Nil
  then show ?case by simp
next
  case (Cons c cs)
  then show ?case by (auto simp: nth_clear_step)
qed

lemma next_index:
  "cur < n \<Longrightarrow> (if cur + 1 = n then 0 else cur + 1) = Suc cur mod n"
  by auto

lemma back_at_first:
  assumes "first < n" "Suc t \<le> n"
  shows "(first + Suc t) mod n = first \<longleftrightarrow> Suc t = n"
proof
  assume "Suc t = n"
  with assms show "(first + Suc t) mod n = first" by simp
next
  assume e: "(first + Suc t) mod n = first"
  show "Suc t = n"
  proof (rule ccontr)
    assume "Suc t \<noteq> n"
    with assms have lt: "Suc t < n" by simp
    show False
    proof (cases "first + Suc t < n")
      case True
      with e show False by simp
    next
      case False
      with lt assms have "(first + Suc t) mod n = first + Suc t - n"
        by (simp add: mod_if)
      with e False lt show False by arith
    qed
  qed
qed

lemma clear_loop_fold:
  assumes "first < n"
  shows "t < n \<Longrightarrow>
         clear_loop n first avail valid ((first + t) mod n) rs =
           Some (fold (clear_step avail valid) (map (\<lambda>s. (first + s) mod n) [t..<n]) rs)"
proof (induction "n - t" arbitrary: t rs)
  case 0
  then show ?case by simp
next
  case (Suc d)
  let ?cur = "(first + t) mod n"
  have cur: "\<not> n \<le> ?cur" using assms by (simp add: not_le)
  have nxt: "(if ?cur + 1 = n then 0 else ?cur + 1) = (first + Suc t) mod n"
    using next_index [of ?cur n] assms by (simp add: mod_Suc_eq)
  have upt: "[t..<n] = t # [Suc t..<n]"
    using Suc.prems by (simp add: upt_conv_Cons)
  show ?case
  proof (cases "Suc t = n")
    case True
    then have "(first + Suc t) mod n = first"
      using back_at_first [OF assms, of t] by simp
    with cur nxt True upt show ?thesis
      by (subst clear_loop.simps) (simp add: Let_def)
  next
    case False
    with Suc.prems have lt: "Suc t < n" by simp
    then have ne: "(first + Suc t) mod n \<noteq> first"
      using back_at_first [OF assms, of t] by simp
    have "d = n - Suc t" using Suc.hyps(2) by simp
    from Suc.hyps(1) [OF this lt]
    have "clear_loop n first avail valid ((first + Suc t) mod n) (clear_step avail valid ?cur rs) =
            Some (fold (clear_step avail valid) (map (\<lambda>s. (first + s) mod n) [Suc t..<n])
                    (clear_step avail valid ?cur rs))" .
    with cur nxt ne upt show ?thesis
      by (subst clear_loop.simps) (simp add: Let_def)
  qed
qed

lemma rotation_covers:
  assumes "first < n" "k < n"
  shows "k \<in> set (map (\<lambda>s. (first + s) mod n) [0..<n])"
proof -
  let ?s = "if first \<le> k then k - first else k + n - first"
  have "?s < n" using assms by auto
  moreover have "(first + ?s) mod n = k" using assms by (auto simp: mod_if)
  ultimately show ?thesis by (auto simp: image_iff intro!: bexI [of _ ?s])
qed

lemma clear_loop_cleared:
  assumes "first < n" "length rs = n"
  shows "clear_loop n first avail valid first rs = Some (cleared_records avail valid rs)"
proof -
  have "0 < n" using assms by simp
  from clear_loop_fold [OF assms(1) this, of avail valid rs]
  have "clear_loop n first avail valid first rs =
          Some (fold (clear_step avail valid) (map (\<lambda>s. (first + s) mod n) [0..<n]) rs)"
    using assms(1) by simp
  moreover have "fold (clear_step avail valid) (map (\<lambda>s. (first + s) mod n) [0..<n]) rs =
          cleared_records avail valid rs"
  proof (rule nth_equalityI)
    show "length (fold (clear_step avail valid) (map (\<lambda>s. (first + s) mod n) [0..<n]) rs) =
            length (cleared_records avail valid rs)"
      by (simp add: cleared_records_def)
  next
    fix k assume "k < length (fold (clear_step avail valid) (map (\<lambda>s. (first + s) mod n) [0..<n]) rs)"
    then have k: "k < n" using assms by simp
    with assms show "fold (clear_step avail valid) (map (\<lambda>s. (first + s) mod n) [0..<n]) rs ! k =
            cleared_records avail valid rs ! k"
      using rotation_covers [OF assms(1) k]
      by (simp add: nth_fold_clear_step cleared_records_def del: set_map)
  qed
  ultimately show ?thesis by simp
qed



lemma cleared_records_results:
  "cleared_records (map (\<lambda>r. fst (snd r)) results) (map (\<lambda>r. snd (snd r)) results)
     (map fst results) =
   map (\<lambda>(records, avail, valid). if avail \<and> valid then records else []) results"
  by (rule nth_equalityI) (auto simp: cleared_records_def split: prod.splits)

lemma length_fetch_all [simp]: "length (fetch_all ub_resolve_at dns_urls) = length dns_urls"
  by (simp add: fetch_all_def)

lemma length_sources_after_clearing [simp]:
  "length (sources_after_clearing ub_resolve_at dns_urls) = length dns_urls"
  by (simp add: sources_after_clearing_def)

lemma load_after_clearing:
  assumes "first_index < length dns_urls"
  shows "load_txt_records_from_dns ub_resolve_at first_index good_records dns_urls =
           select_good_records good_records (length dns_urls)
             (sources_after_clearing ub_resolve_at dns_urls)"
proof -
  from assms have ne: "dns_urls \<noteq> []" by auto
  let ?results = "fetch_all ub_resolve_at dns_urls"
  have "clear_loop (length dns_urls) first_index (map (\<lambda>r. fst (snd r)) ?results)
          (map (\<lambda>r. snd (snd r)) ?results) first_index (map fst ?results) =
        Some (sources_after_clearing ub_resolve_at dns_urls)"
    using clear_loop_cleared [OF assms, of "map fst ?results"]
    by (simp add: cleared_records_results sources_after_clearing_def)
  with ne show ?thesis
    by (simp add: load_txt_records_from_dns_def Let_def)
qed


lemma size_t_to_int_small: "i < 2 ^ 31 \<Longrightarrow> size_t_to_int i = int i"
  by (simp add: size_t_to_int_def Let_def)

lemma int_to_size_t_nat: "int_to_size_t (int i) = i mod 2 ^ 64"
  by (simp add: int_to_size_t_def nat_mod_distrib flip: zmod_int)

lemma match_loop_eq:
  "match_loop rs i j g =
     (if \<exists>j'\<in>{j..<length rs}. dns_records_match (rs ! i) (rs ! j') then size_t_to_int i else g)"
proof (induction rs i j g rule: match_loop.induct)
  case (1 records i j g)
  show ?case
  proof (cases "j < length records")
    case False
    then show ?thesis by (subst match_loop.simps) simp
  next
    case True
    note j = this
    show ?thesis
    proof (cases "dns_records_match (records ! i) (records ! j)")
      case True
      with j show ?thesis by (subst match_loop.simps) auto
    next
      case False
      have "(\<exists>j'\<in>{j..<length records}. dns_records_match (records ! i) (records ! j')) \<longleftrightarrow>
            (\<exists>j'\<in>{j + 1..<length records}. dns_records_match (records ! i) (records ! j'))"
      proof -
        have "{j..<length records} = insert j {j + 1..<length records}"
          using j by auto
        with False show ?thesis by simp
      qed
      with 1 [OF j False] j False show ?thesis
        by (subst match_loop.simps) simp
    qed
  qed
qed


subsection \<open>The multi-source record loader: the search for two matching sources\<close>

lemma dns_records_match_length: "dns_records_match a b \<Longrightarrow> length a = length b"
  by (simp add: dns_records_match_def split: if_splits)

lemma set_pairs_from: "set (pairs_from i n) = {(a, b). i \<le> a \<and> a < b \<and> b < n}"
  by (fastforce simp: pairs_from_def)

lemma pairs_from_step:
  "i < n \<Longrightarrow> pairs_from i n = map (Pair i) [Suc i..<n] @ pairs_from (Suc i) n"
  by (simp add: pairs_from_def upt_conv_Cons)

lemma find_pairs_from_end:
  "n - 1 \<le> i \<Longrightarrow> List.find P (pairs_from i n) = None"
  by (auto simp: find_None_iff set_pairs_from)

lemma find_append:
  "List.find P (xs @ ys) = (case List.find P xs of None \<Rightarrow> List.find P ys | Some x \<Rightarrow> Some x)"
  by (induction xs) simp_all

lemma find_row_None:
  "List.find (pair_at eq rs) (map (Pair i) js) = None \<longleftrightarrow> (\<forall>j\<in>set js. \<not> pair_at eq rs (i, j))"
  by (auto simp: find_None_iff)

lemma find_row_Some:
  "List.find (pair_at eq rs) (map (Pair i) js) = Some x \<Longrightarrow> fst x = i"
  by (auto simp: find_Some_iff)

lemma row_match:
  assumes "rs ! i \<noteq> []" "length rs = n"
  shows "(\<exists>j\<in>{i + 1..<n}. dns_records_match (rs ! i) (rs ! j)) \<longleftrightarrow>
         (\<exists>j\<in>set [Suc i..<n]. pair_at dns_records_match rs (i, j))"
proof -
  have "rs ! j \<noteq> []" if "dns_records_match (rs ! i) (rs ! j)" for j
    using dns_records_match_length [OF that] assms(1) by auto
  with assms show ?thesis
    by (auto simp: pair_at_def)
qed

lemma search_loop_eq:
  assumes "length rs = n" "n \<le> 2 ^ 31" "g < 0"
  shows "search_loop rs i g =
           (case List.find (pair_at dns_records_match rs) (pairs_from i n) of
              None \<Rightarrow> g
            | Some (i', j') \<Rightarrow> int i')"
proof (induction "n - i" arbitrary: i)
  case 0
  then have "n - 1 \<le> i" by simp
  with assms(1) show ?case
    by (subst search_loop.simps) (simp add: find_pairs_from_end)
next
  case (Suc d)
  then have i: "i < n" by simp
  show ?case
  proof (cases "i < n - 1")
    case False
    then have "n - 1 \<le> i" by simp
    with assms(1) show ?thesis
      by (subst search_loop.simps) (simp add: find_pairs_from_end)
  next
    case True
    have d: "d = n - (i + 1)" using Suc.hyps(2) by simp
    note IH = Suc.hyps(1) [OF d]
    let ?row = "List.find (pair_at dns_records_match rs) (map (Pair i) [Suc i..<n])"
    show ?thesis
    proof (cases "rs ! i = []")
      case True
      then have "?row = None"
        unfolding find_row_None by (simp add: pair_at_def)
      with True \<open>i < n - 1\<close> assms(1) i IH show ?thesis
        by (subst search_loop.simps) (simp add: pairs_from_step find_append)
    next
      case False
      note ne = this
      show ?thesis
      proof (cases "\<exists>j\<in>{i + 1..<n}. dns_records_match (rs ! i) (rs ! j)")
        case True
        then have "?row \<noteq> None"
          using row_match [OF ne assms(1)] by (simp add: find_row_None)
        then obtain x where x: "?row = Some x" by blast
        then have "fst x = i" by (rule find_row_Some)
        with x have row: "?row = Some (i, snd x)" by (cases x) simp
        have "i < 2 ^ 31" using \<open>i < n - 1\<close> assms(2) by simp
        then have "size_t_to_int i = int i" by (rule size_t_to_int_small)
        with True ne \<open>i < n - 1\<close> assms(1) i row show ?thesis
          by (subst search_loop.simps)
            (simp add: pairs_from_step find_append match_loop_eq Let_def)
      next
        case False
        then have "?row = None"
          using row_match [OF ne assms(1)] by (simp add: find_row_None)
        with False ne \<open>i < n - 1\<close> assms(1,3) i IH show ?thesis
          by (subst search_loop.simps)
            (simp add: pairs_from_step find_append match_loop_eq Let_def)
      qed
    qed
  qed
qed

lemma first_pair_Some:
  "first_pair eq rs = Some (i, j) \<Longrightarrow> pair_at eq rs (i, j)"
  by (auto simp: first_pair_def find_Some_iff)

lemma no_valid_records:
  "length (filter (\<lambda>record_set. length record_set \<noteq> 0) rs) = 0 \<longleftrightarrow> (\<forall>r\<in>set rs. r = [])"
  by (auto simp: filter_empty_conv)

lemma select_none_valid:
  "\<forall>r\<in>set rs. r = [] \<Longrightarrow> select_good_records good n rs = Some (False, good)"
  using no_valid_records [of rs] by (simp add: select_good_records_def Let_def)

lemma select_single:
  assumes "length rs = n" and "n = 1"
  shows "select_good_records good n rs =
           Some (if rs ! 0 = [] then (False, good) else (True, rs ! 0))"
proof -
  from assms obtain r where "rs = [r]"
    by (cases rs) auto
  with assms(2) show ?thesis
    by (simp add: select_good_records_def)
qed

lemma select_quorum:
  assumes "length rs = n" "1 < n" "n < 2 ^ 31"
  shows "select_good_records good n rs = Some (quorum_outcome dns_records_match rs good)"
proof (cases "\<forall>r\<in>set rs. r = []")
  case True
  then have "\<not> pair_at dns_records_match rs x" for x
    using assms(1) by (auto simp: pair_at_def)
  then have "first_pair dns_records_match rs = None"
    by (simp add: first_pair_def find_None_iff)
  with True show ?thesis
    by (simp add: select_none_valid quorum_outcome_def)
next
  case False
  then have nv: "length (filter (\<lambda>record_set. length record_set \<noteq> 0) rs) \<noteq> 0"
    using no_valid_records [of rs] by simp
  have s: "search_loop rs 0 (- 1) =
             (case first_pair dns_records_match rs of None \<Rightarrow> - 1 | Some (i', j') \<Rightarrow> int i')"
    using search_loop_eq [of rs n "- 1" 0] assms by (simp add: first_pair_def)
  show ?thesis
  proof (cases "first_pair dns_records_match rs")
    case None
    with s nv assms show ?thesis
      by (simp add: select_good_records_def quorum_outcome_def)
  next
    case (Some p)
    obtain i j where p: "p = (i, j)" by (cases p)
    with Some have "pair_at dns_records_match rs (i, j)"
      by (simp add: first_pair_Some)
    then have "i < length rs" by (simp add: pair_at_def)
    moreover have "(2::nat) ^ 31 < 2 ^ 64" by simp
    ultimately have "i < 2 ^ 64"
      using assms(1,3) by linarith
    then have "int_to_size_t (int i) = i"
      by (simp add: int_to_size_t_nat)
    with Some p s nv assms \<open>i < length rs\<close> show ?thesis
      by (simp add: select_good_records_def quorum_outcome_def)
  qed
qed


lemma size_t_to_int_index:
  assumes "0 \<le> size_t_to_int i"
  shows "int_to_size_t (size_t_to_int i) \<le> i"
proof -
  from assms have e: "size_t_to_int i = int i mod 2 ^ 32"
    by (auto simp: size_t_to_int_def Let_def split: if_splits)
  have "int i mod 2 ^ 32 = int (i mod 2 ^ 32)"
    by (simp add: zmod_int)
  moreover have "i mod 2 ^ 32 < 2 ^ 64"
    by (rule less_trans [OF mod_less_divisor]) simp_all
  ultimately have "int_to_size_t (size_t_to_int i) = i mod 2 ^ 32"
    using e by (simp add: int_to_size_t_nat)
  then show ?thesis by simp
qed

lemma search_loop_index:
  "g < 0 \<Longrightarrow> search_loop rs i g < 0 \<or> int_to_size_t (search_loop rs i g) < length rs"
proof (induction "length rs - i" arbitrary: i g)
  case 0
  then have "\<not> i < length rs - 1" by simp
  then have "search_loop rs i g = g"
    by (subst search_loop.simps) simp
  with 0 show ?case by simp
next
  case (Suc d)
  have d: "d = length rs - (i + 1)" using Suc.hyps(2) by simp
  note IH = Suc.hyps(1) [OF d]
  show ?case
  proof (cases "i < length rs - 1")
    case False
    then have "search_loop rs i g = g"
      by (subst search_loop.simps) simp
    with Suc.prems show ?thesis by simp
  next
    case True
    note i = this
    show ?thesis
    proof (cases "length (rs ! i) = 0")
      case True
      with i have "search_loop rs i g = search_loop rs (i + 1) g"
        by (subst search_loop.simps) simp
      with IH [OF Suc.prems] show ?thesis by simp
    next
      case False
      note ne = this
      let ?g = "match_loop rs i (i + 1) g"
      show ?thesis
      proof (cases "0 \<le> ?g")
        case True
        with i ne have e: "search_loop rs i g = ?g"
          by (subst search_loop.simps) (simp add: Let_def)
        from True Suc.prems have "?g = size_t_to_int i"
          by (simp add: match_loop_eq split: if_splits)
        moreover from this True size_t_to_int_index [of i] i
        have "int_to_size_t (size_t_to_int i) < length rs" by simp
        ultimately show ?thesis using e by simp
      next
        case False
        with i ne have "search_loop rs i g = search_loop rs (i + 1) ?g"
          by (subst search_loop.simps) (simp add: Let_def)
        moreover from False have "?g < 0" by simp
        ultimately show ?thesis using IH [of ?g] by simp
      qed
    qed
  qed
qed

lemma select_defined: "\<exists>out. select_good_records good n rs = Some out"
  using search_loop_index [of "- 1" rs 0]
  by (auto simp: select_good_records_def Let_def)

lemma match_distinct:
  assumes "distinct a"
  shows "dns_records_match a b = equal_as_sets a b"
proof (cases "length a = length b \<and> set a \<subseteq> set b")
  case False
  then show ?thesis
    by (auto simp: dns_records_match_def equal_as_sets_def list_all_iff list_ex_iff)
next
  case True
  then have "card (set b) \<le> card (set a)"
    using assms distinct_card [of a] card_length [of b] by simp
  with True have "set a = set b"
    by (simp add: card_seteq)
  with True show ?thesis
    by (auto simp: dns_records_match_def equal_as_sets_def list_all_iff list_ex_iff)
qed

lemma first_pair_distinct:
  assumes "\<forall>r\<in>set rs. distinct r"
  shows "first_pair dns_records_match rs = first_pair equal_as_sets rs"
  unfolding first_pair_def
proof (rule find_cong [OF refl])
  fix x assume "x \<in> set (pairs_from 0 (length rs))"
  then obtain i j where x: "x = (i, j)" "i < j" "j < length rs"
    by (auto simp: set_pairs_from)
  then have "distinct (rs ! i)" using assms by simp
  then show "pair_at dns_records_match rs x = pair_at equal_as_sets rs x"
    using x by (simp add: pair_at_def match_distinct)
qed


subsection \<open>The multi-source record loader: the claims\<close>

text \<open>
  Claim C2. In every call of \<open>load_txt_records_from_dns\<close> (with \<open>first_index\<close> below
  the number of hostnames, as \<open>rand_idx\<close> returns it) the clearing loop ends, and it
  leaves empty the record set of every source whose \<open>dnssec_available\<close> or
  \<open>dnssec_valid\<close> flag is false, whatever records that source returned, and leaves the
  other record sets as they were; the count of non-empty record sets and the quorum
  comparison (\<open>select_good_records\<close>) then run on the cleared record sets.
\<close>

theorem untrusted_sources_cleared:
  assumes "first_index < length dns_urls"
    and "results = fetch_all ub_resolve_at dns_urls"
  shows "\<exists>records'.
           clear_loop (length dns_urls) first_index (map (\<lambda>r. fst (snd r)) results)
             (map (\<lambda>r. snd (snd r)) results) first_index (map fst results) = Some records' \<and>
           length records' = length dns_urls \<and>
           (\<forall>n<length dns_urls.
              \<not> fst (snd (results ! n)) \<or> \<not> snd (snd (results ! n)) \<longrightarrow> records' ! n = []) \<and>
           (\<forall>n<length dns_urls.
              fst (snd (results ! n)) \<and> snd (snd (results ! n)) \<longrightarrow>
                records' ! n = fst (results ! n)) \<and>
           load_txt_records_from_dns ub_resolve_at first_index good_records dns_urls =
             select_good_records good_records (length dns_urls) records'"
proof (intro exI conjI)
  let ?c = "cleared_records (map (\<lambda>r. fst (snd r)) results) (map (\<lambda>r. snd (snd r)) results)
              (map fst results)"
  have len: "length results = length dns_urls"
    using assms(2) by simp
  show "clear_loop (length dns_urls) first_index (map (\<lambda>r. fst (snd r)) results)
          (map (\<lambda>r. snd (snd r)) results) first_index (map fst results) = Some ?c"
    using clear_loop_cleared [OF assms(1), of "map fst results"] len by simp
  show "length ?c = length dns_urls"
    using len by (simp add: cleared_records_def)
  show "\<forall>n<length dns_urls.
          \<not> fst (snd (results ! n)) \<or> \<not> snd (snd (results ! n)) \<longrightarrow> ?c ! n = []"
    using len by (auto simp: cleared_records_def)
  show "\<forall>n<length dns_urls.
          fst (snd (results ! n)) \<and> snd (snd (results ! n)) \<longrightarrow> ?c ! n = fst (results ! n)"
    using len by (auto simp: cleared_records_def)
  show "load_txt_records_from_dns ub_resolve_at first_index good_records dns_urls =
          select_good_records good_records (length dns_urls) ?c"
    using load_after_clearing [OF assms(1)] assms(2)
    by (simp add: cleared_records_results sources_after_clearing_def)
qed

theorem untrusted_sources_cleared_witness:
  "\<exists>records'.
     clear_loop 2 1 [True, False] [True, False] 1 [[''a''], [''b'']] = Some records' \<and>
     records' ! 0 = [''a''] \<and> records' ! 1 = [] \<and>
     load_txt_records_from_dns (replies [([''a''], True, False), ([''b''], False, False)]) 1
       [''old''] [''a.example.org'', ''b.example.org''] =
       select_good_records [''old''] 2 records'"
proof -
  let ?ub = "replies [([''a''], True, False), ([''b''], False, False)]"
  let ?urls = "[''a.example.org'', ''b.example.org'']"
  have f: "[([''a''], True, True), ([''b''], False, False)] = fetch_all ?ub ?urls"
    by code_simp
  have l: "1 < length ?urls"
    by simp
  show ?thesis
    using untrusted_sources_cleared [OF l f, of "[''old'']"]
    by (auto simp: All_less_Suc numeral_2_eq_2)
qed

text \<open>
  Claim C4. With exactly one configured hostname whose source has both DNSSEC flags
  true and returned at least one record, \<open>load_txt_records_from_dns\<close> returns
  \<open>true\<close> and \<open>good_records\<close> is that source's record set, unchanged.
\<close>

theorem single_source_accepted:
  assumes "fst (get_txt_record (ub_resolve_at 0) url) = (records, True, True)"
    and "records \<noteq> []"
    and "first_index < length [url]"
  shows "load_txt_records_from_dns ub_resolve_at first_index good_records [url] =
           Some (True, records)"
proof -
  have "sources_after_clearing ub_resolve_at [url] = [records]"
    using assms(1) by (simp add: sources_after_clearing_def fetch_all_def)
  with assms(2) show ?thesis
    using load_after_clearing [OF assms(3), of ub_resolve_at good_records]
    by (simp add: select_single)
qed

theorem single_source_accepted_witness:
  "load_txt_records_from_dns (replies [([''1.2.3:hash''], True, False)]) 0 [] [''updates.example.org''] =
     Some (True, [''1.2.3:hash''])"
proof -
  have r: "fst (get_txt_record (replies [([''1.2.3:hash''], True, False)] 0) ''updates.example.org'') =
             ([''1.2.3:hash''], True, True)"
    by code_simp
  have n: "[''1.2.3:hash''] \<noteq> []" by simp
  have l: "0 < length [''updates.example.org'']" by simp
  show ?thesis
    using single_source_accepted [of "replies [([''1.2.3:hash''], True, False)]"
        "''updates.example.org''" "[''1.2.3:hash'']" 0 "[]", OF r n l] .
qed

text \<open>
  Claim C5. \<open>load_txt_records_from_dns\<close> returns \<open>false\<close> when the list of hostnames is
  empty, and when, after clearing, the count of sources with a non-empty record set is
  zero; in both cases \<open>good_records\<close> is left as the caller passed it.
\<close>

theorem no_source_rejected:
  "(dns_urls = [] \<longrightarrow>
      load_txt_records_from_dns ub_resolve_at first_index good_records dns_urls =
        Some (False, good_records)) \<and>
   (first_index < length dns_urls \<and>
    length (filter (\<lambda>r. r \<noteq> []) (sources_after_clearing ub_resolve_at dns_urls)) = 0 \<longrightarrow>
      load_txt_records_from_dns ub_resolve_at first_index good_records dns_urls =
        Some (False, good_records))"
proof (intro conjI impI)
  assume "dns_urls = []"
  then show "load_txt_records_from_dns ub_resolve_at first_index good_records dns_urls =
               Some (False, good_records)"
    by (simp add: load_txt_records_from_dns_def)
next
  assume a: "first_index < length dns_urls \<and>
    length (filter (\<lambda>r. r \<noteq> []) (sources_after_clearing ub_resolve_at dns_urls)) = 0"
  then have "\<forall>r\<in>set (sources_after_clearing ub_resolve_at dns_urls). r = []"
    by (simp add: filter_empty_conv)
  then show "load_txt_records_from_dns ub_resolve_at first_index good_records dns_urls =
               Some (False, good_records)"
    using a by (simp add: load_after_clearing select_none_valid)
qed

theorem no_source_rejected_witness:
  "load_txt_records_from_dns (replies []) 0 [''old''] [] = Some (False, [''old'']) \<and>
   load_txt_records_from_dns (replies [([''a''], False, False), ([''a''], True, True)]) 1
     [''old''] [''a.example.org'', ''b.example.org''] = Some (False, [''old''])"
proof -
  let ?ub = "replies [([''a''], False, False), ([''a''], True, True)]"
  let ?urls = "[''a.example.org'', ''b.example.org'']"
  have c: "length (filter (\<lambda>r. r \<noteq> []) (sources_after_clearing ?ub ?urls)) = 0"
    by code_simp
  have l: "1 < length ?urls" by simp
  show ?thesis
    using no_source_rejected [of "[]" "replies []" 0 "[''old'']"]
      no_source_rejected [of ?urls ?ub 1 "[''old'']"] c l
    by simp
qed

text \<open>
  Claim C6. For fixed answers of the sources (record sets and DNSSEC flags), the
  outcome of \<open>load_txt_records_from_dns\<close>, the returned flag and \<open>good_records\<close>, is
  the same for every value \<open>rand_idx\<close> can return as the starting index; and the
  function does return for each of them.
\<close>

theorem outcome_independent_of_first_index:
  assumes "first_index < length dns_urls" and "first_index' < length dns_urls"
  shows "load_txt_records_from_dns ub_resolve_at first_index good_records dns_urls =
           load_txt_records_from_dns ub_resolve_at first_index' good_records dns_urls \<and>
         (\<exists>out. load_txt_records_from_dns ub_resolve_at first_index good_records dns_urls =
                  Some out)"
  using assms select_defined by (simp add: load_after_clearing)

theorem outcome_independent_of_first_index_witness:
  "load_txt_records_from_dns
     (replies [([''a'', ''b''], True, False), ([''c''], True, False), ([''b'', ''a''], True, False)])
     0 [] [''a.example.org'', ''b.example.org'', ''c.example.org''] =
   load_txt_records_from_dns
     (replies [([''a'', ''b''], True, False), ([''c''], True, False), ([''b'', ''a''], True, False)])
     2 [] [''a.example.org'', ''b.example.org'', ''c.example.org'']"
proof -
  have a: "0 < length [''a.example.org'', ''b.example.org'', ''c.example.org'']" by simp
  have b: "2 < length [''a.example.org'', ''b.example.org'', ''c.example.org'']" by simp
  show ?thesis
    using outcome_independent_of_first_index [OF a b] by blast
qed














text \<open>
  Away from repeated records the loader does what the specification says of the
  quorum: with two hostnames or more (fewer than \<open>2^31\<close>) and no source that lists a
  record twice, the first pair of sources with equal record sets decides.
\<close>

lemma quorum_without_repeated_records:
  assumes "1 < length dns_urls" and "length dns_urls < 2 ^ 31"
    and "first_index < length dns_urls"
    and "\<forall>r\<in>set (sources_after_clearing ub_resolve_at dns_urls). distinct r"
  shows "load_txt_records_from_dns ub_resolve_at first_index good_records dns_urls =
           Some (quorum_outcome equal_as_sets
                   (sources_after_clearing ub_resolve_at dns_urls) good_records)"
proof -
  have "load_txt_records_from_dns ub_resolve_at first_index good_records dns_urls =
          Some (quorum_outcome dns_records_match
                  (sources_after_clearing ub_resolve_at dns_urls) good_records)"
    using assms(1-3) by (simp add: load_after_clearing select_quorum)
  with assms(4) show ?thesis
    by (simp add: quorum_outcome_def first_pair_distinct)
qed

lemma quorum_three_sources:
  "load_txt_records_from_dns
     (replies [([''a'', ''b''], True, False), ([''c''], True, False), ([''b'', ''a''], True, False)])
     1 [] [''a.example.org'', ''b.example.org'', ''c.example.org''] = Some (True, [''a'', ''b''])"
  by code_simp

text \<open>
  Claim C1. The claim asks for two sources whose record sets are equal as sets. The
  code falls short of it when a source lists a record twice: \<open>dns_records_match\<close>
  compares the sizes and looks for every record of the first list in the second, not
  the other way round. With two DNSSEC-secure sources returning \<open>[a, a]\<close> and
  \<open>[a, b]\<close>, which are not equal as sets, the loader returns \<open>true\<close> with \<open>[a, a]\<close>,
  where the specification's search finds no pair and rejects; with the two sources in
  the other order the loader rejects.
\<close>

theorem repeated_record_accepted_without_quorum:
  "load_txt_records_from_dns (replies [([''a'', ''a''], True, False), ([''a'', ''b''], True, False)])
     0 [] [''a.example.org'', ''b.example.org''] = Some (True, [''a'', ''a'']) \<and>
   load_txt_records_from_dns (replies [([''a'', ''b''], True, False), ([''a'', ''a''], True, False)])
     0 [] [''a.example.org'', ''b.example.org''] = Some (False, []) \<and>
   set [''a'', ''a''] \<noteq> set [''a'', ''b''] \<and>
   quorum_outcome equal_as_sets
     (sources_after_clearing
        (replies [([''a'', ''a''], True, False), ([''a'', ''b''], True, False)])
        [''a.example.org'', ''b.example.org'']) [] = (False, [])"
  by code_simp

end
